theory Spec2Isabelle
  imports Main "HOL-Library.Word"
begin

section \<open>Kuhn poker: the state model of \<open>pgx/kuhn_poker.py\<close>\<close>

text \<open>
  The engine is written against JAX arrays. The embedding keeps the element types of the
  source: \<open>jnp.int8\<close> scalars are 8-bit words read as two's complement (\<open>sint\<close>),
  arrays of shape \<open>(2,)\<close> (\<open>_cards\<close>, \<open>_pot\<close>, \<open>rewards\<close>) are pairs, the
  legal-action mask and the observation are lists of booleans. Python's leading
  underscores are dropped from the names: \<open>_cards\<close> is \<open>cards\<close>, \<open>_step\<close> is \<open>step\<close>.

  \<open>rewards\<close> is a \<open>float32\<close> array in the source. Every value the code ever stores in it
  is one of \<open>-2, -1, 0, 1, 2\<close>, and the only arithmetic on it is the multiplication of
  \<open>-1\<close> or \<open>1\<close> by \<open>2\<close>; all of these are exact in \<open>float32\<close>, so the entries are
  modelled as integers.
\<close>

type_synonym int8 = "8 word"
type_synonym 'a vec2 = "'a \<times> 'a"
type_synonym key = "32 word vec2"

definition CALL :: int8 where "CALL = 0"
definition BET :: int8 where "BET = 1"
definition FOLD :: int8 where "FOLD = 2"
definition CHECK :: int8 where "CHECK = 3"

record State =
  current_player :: int8
  observation :: "bool list list list"
  rewards :: "int vec2"
  terminated :: bool
  truncated :: bool
  legal_action_mask :: "bool list"
  rng_key :: key
  step_count :: "32 word"
  cards :: "int8 vec2"
  last_action :: int8
  pot :: "int8 vec2"

text \<open>
  The field defaults of the dataclass: \<open>State(...)\<close> in \<open>_init\<close> overrides three of them.
\<close>

definition default_State :: State where
  "default_State =
     \<lparr> current_player = 0,
       observation = replicate 8 (replicate 8 (replicate 2 False)),
       rewards = (0, 0),
       terminated = False,
       truncated = False,
       legal_action_mask = replicate 4 True,
       rng_key = (0, 0),
       step_count = 0,
       cards = (- 1, - 1),
       last_action = - 1,
       pot = (0, 0) \<rparr>"

section \<open>JAX indexing\<close>

text \<open>
  A negative index counts from the end of the axis. An index that is still out of range
  after that is clamped by a read (\<open>a[i]\<close>) and makes an update (\<open>a.at[i].set(v)\<close>,
  \<open>a.at[i].add(v)\<close>) a no-op. \<open>jax.lax.switch\<close> clamps its index into the list of
  branches, without the negative-index rule.
\<close>

definition norm_index :: "nat \<Rightarrow> int8 \<Rightarrow> int" where
  "norm_index n i = (if sint i < 0 then sint i + int n else sint i)"

definition get2 :: "'a vec2 \<Rightarrow> int8 \<Rightarrow> 'a" where
  "get2 a i = (if norm_index 2 i \<le> 0 then fst a else snd a)"

definition set2 :: "'a vec2 \<Rightarrow> int8 \<Rightarrow> 'a \<Rightarrow> 'a vec2" where
  "set2 a i v =
     (let j = norm_index 2 i
      in if j = 0 then (v, snd a) else if j = 1 then (fst a, v) else a)"

definition add2 :: "int8 vec2 \<Rightarrow> int8 \<Rightarrow> int8 \<Rightarrow> int8 vec2" where
  "add2 a i d =
     (let j = norm_index 2 i
      in if j = 0 then (fst a + d, snd a) else if j = 1 then (fst a, snd a + d) else a)"

definition at_set :: "'a list \<Rightarrow> int8 \<Rightarrow> 'a \<Rightarrow> 'a list" where
  "at_set xs i v =
     (let j = norm_index (length xs) i
      in if 0 \<le> j \<and> j < int (length xs) then xs[nat j := v] else xs)"

definition lax_switch :: "int8 \<Rightarrow> 'a list \<Rightarrow> 'a" where
  "lax_switch i branches = branches ! nat (max 0 (min (int (length branches) - 1) (sint i)))"

definition scale2 :: "int vec2 \<Rightarrow> int \<Rightarrow> int vec2" where
  "scale2 a k = (fst a * k, snd a * k)"

section \<open>The initializer\<close>

text \<open>
  \<open>_init\<close> draws from \<open>jax.random\<close>, which is not part of the repository: \<open>split\<close>,
  \<open>bernoulli\<close> and \<open>choice\<close> are parameters of the model. \<open>choice key rows\<close> stands for
  \<open>jax.random.choice(key, rows)\<close> on a two-dimensional array, which returns one row.
\<close>

definition deals :: "int8 vec2 list" where
  "deals = [(0, 1), (0, 2), (1, 0), (1, 2), (2, 0), (2, 1)]"

definition init ::
  "(key \<Rightarrow> key \<times> key) \<Rightarrow> (key \<Rightarrow> bool) \<Rightarrow> (key \<Rightarrow> int8 vec2 list \<Rightarrow> int8 vec2) \<Rightarrow> key \<Rightarrow> State"
where
  "init split bernoulli choice rng =
     (let (rng1, rng2) = split rng;
          current_player' = (if bernoulli rng1 then 1 else 0);
          init_card = choice rng2 deals
      in default_State
           \<lparr> current_player := current_player',
             cards := init_card,
             legal_action_mask := [False, True, False, True] \<rparr>)"

section \<open>The transition function\<close>

definition get_unit_reward :: "State \<Rightarrow> int vec2" where
  "get_unit_reward state =
     (if sint (get2 (cards state) (current_player state))
           > sint (get2 (cards state) (1 - current_player state))
      then set2 (- 1, - 1) (current_player state) 1
      else set2 (- 1, - 1) (1 - current_player state) 1)"

definition step :: "State \<Rightarrow> int8 \<Rightarrow> State" where
  "step state action =
     (let pot' = (if action = BET \<or> action = CALL
                  then add2 (pot state) (current_player state) 1
                  else pot state);
          (terminated1, reward1) =
             (if action = FOLD
              then (True, set2 (- 1, - 1) (1 - current_player state) 1)
              else (False, (0, 0)));
          (terminated2, reward2) =
             (if last_action state = BET \<and> action = CALL
              then (True, scale2 (get_unit_reward state) 2)
              else (terminated1, reward1));
          (terminated3, reward3) =
             (if last_action state = CHECK \<and> action = CHECK
              then (True, get_unit_reward state)
              else (terminated2, reward2));
          legal_action =
             lax_switch action
               [ [False, False, False, False],
                 [True, False, True, False],
                 [False, False, False, False],
                 [False, True, False, True] ]
      in state
           \<lparr> current_player := 1 - current_player state,
             last_action := action,
             legal_action_mask := legal_action,
             terminated := terminated3,
             rewards := reward3,
             pot := pot' \<rparr>)"

section \<open>The observation function\<close>

definition observe :: "State \<Rightarrow> int8 \<Rightarrow> bool list" where
  "observe state player_id =
     (let obs0 = replicate 7 False;
          obs1 = at_set obs0 (get2 (cards state) player_id) True;
          obs2 = at_set obs1 (3 + get2 (pot state) player_id) True;
          obs3 = at_set obs2 (5 + get2 (pot state) (1 - player_id)) True
      in obs3)"

section \<open>Notions used to state the properties\<close>

text \<open>
  A seat is a player index, 0 or 1. Every state that \<open>init\<close> and \<open>step\<close> produce has a
  seat as its \<open>current_player\<close>; the arrays indexed by it have two slots.
\<close>

definition seat :: "int8 \<Rightarrow> bool" where
  "seat p = (p = 0 \<or> p = 1)"

text \<open>An action is permitted by a state when it is one of the four and its mask entry is set.\<close>

definition legal :: "State \<Rightarrow> int8 \<Rightarrow> bool" where
  "legal s a = (a \<in> {CALL, BET, FOLD, CHECK} \<and> legal_action_mask s ! unat a)"

definition valid_state :: "State \<Rightarrow> bool" where
  "valid_state s =
     (fst (cards s) \<in> {0, 1, 2} \<and> snd (cards s) \<in> {0, 1, 2} \<and>
      fst (pot s) \<in> {0, 1} \<and> snd (pot s) \<in> {0, 1})"

text \<open>
  The states of legal play: what \<open>init\<close> returns when \<open>choice\<close> returns one of the rows
  it is given, and what \<open>step\<close> returns from such a state on a permitted action. Nothing
  here looks at \<open>terminated\<close>: the engine does not either.
\<close>

inductive reachable :: "State \<Rightarrow> bool" where
  reach_init:
    "choice (snd (split rng)) deals \<in> set deals \<Longrightarrow> reachable (init split bernoulli choice rng)"
| reach_step:
    "reachable s \<Longrightarrow> legal s a \<Longrightarrow> reachable (step s a)"

text \<open>
  The three phases of legal play, told apart by the mask: nobody has bet yet, the player to
  move faces a bet, no action is left.
\<close>

definition phase_inv :: "State \<Rightarrow> bool" where
  "phase_inv s =
     (seat (current_player s) \<and> cards s \<in> set deals \<and>
      (legal_action_mask s = [False, True, False, True] \<and> pot s = (0, 0) \<or>
       legal_action_mask s = [True, False, True, False] \<and> last_action s = BET \<and>
         get2 (pot s) (current_player s) = 0 \<and> get2 (pot s) (1 - current_player s) = 1 \<or>
       legal_action_mask s = [False, False, False, False] \<and>
         fst (pot s) \<in> {0, 1} \<and> snd (pot s) \<in> {0, 1}))"

text \<open>The three writes of \<open>observe\<close>, as a function of the three values it reads.\<close>

definition encode :: "int8 \<Rightarrow> int8 \<Rightarrow> int8 \<Rightarrow> bool list" where
  "encode c q r = at_set (at_set (at_set (replicate 7 False) c True) (3 + q) True) (5 + r) True"

subsection \<open>A concrete hand\<close>

text \<open>
  Player 0 holds the Queen, player 1 the King, player 0 moves first: the deal of the
  scenarios Check-Check and Bet-Call. The random primitives are fixed functions.
\<close>

definition fixed_split :: "key \<Rightarrow> key \<times> key" where
  "fixed_split k = (k, k)"

definition fixed_coin :: "key \<Rightarrow> bool" where
  "fixed_coin k = False"

definition fixed_choice :: "key \<Rightarrow> int8 vec2 list \<Rightarrow> int8 vec2" where
  "fixed_choice k rows = rows ! 3"

definition deal_QK :: State where
  "deal_QK = init fixed_split fixed_coin fixed_choice (0, 0)"

definition facing_bet :: State where
  "facing_bet = step deal_QK BET"

definition after_check :: State where
  "after_check = step deal_QK CHECK"

section \<open>Basic facts\<close>

lemmas action_defs = CALL_def BET_def FOLD_def CHECK_def

lemmas index_defs = norm_index_def get2_def set2_def add2_def at_set_def lax_switch_def scale2_def

lemmas example_defs = deal_QK_def facing_bet_def after_check_def fixed_split_def fixed_coin_def
  fixed_choice_def init_def deals_def default_State_def

lemma action_distinct [simp]:
  "CALL \<noteq> BET" "CALL \<noteq> FOLD" "CALL \<noteq> CHECK" "BET \<noteq> CALL" "BET \<noteq> FOLD" "BET \<noteq> CHECK"
  "FOLD \<noteq> CALL" "FOLD \<noteq> BET" "FOLD \<noteq> CHECK" "CHECK \<noteq> CALL" "CHECK \<noteq> BET" "CHECK \<noteq> FOLD"
  by (simp_all add: action_defs)

lemma sentinel_not_action [simp]:
  "- 1 \<noteq> CALL" "- 1 \<noteq> BET" "- 1 \<noteq> FOLD" "- 1 \<noteq> CHECK"
  by (simp_all add: action_defs)

lemma get2_0 [simp]: "get2 a 0 = fst a"
  by (simp add: index_defs)

lemma get2_1 [simp]: "get2 a 1 = snd a"
  by (simp add: index_defs)

lemma set2_0 [simp]: "set2 a 0 v = (v, snd a)"
  by (simp add: index_defs)

lemma set2_1 [simp]: "set2 a 1 v = (fst a, v)"
  by (simp add: index_defs)

lemma add2_0 [simp]: "add2 a 0 d = (fst a + d, snd a)"
  by (simp add: index_defs)

lemma add2_1 [simp]: "add2 a 1 d = (fst a, snd a + d)"
  by (simp add: index_defs)

lemma zeros7: "replicate 7 False = [False, False, False, False, False, False, False]"
  by (simp add: numeral_eq_Suc)

lemma lt7: "i < 7 \<longleftrightarrow> i \<in> {0, 1, 2, 3, 4, 5, 6}" for i :: nat
  by auto

lemma sint_eq_1: "sint (a :: int8) = 1 \<Longrightarrow> a = 1"
proof -
  assume "sint a = 1"
  then have "word_of_int (sint a) = (word_of_int 1 :: int8)" by simp
  then show "a = 1" by simp
qed

subsection \<open>The fields of a step\<close>

lemma mask_step:
  "legal_action_mask (step s a) =
     lax_switch a [[False, False, False, False], [True, False, True, False],
                   [False, False, False, False], [False, True, False, True]]"
  by (simp add: step_def Let_def split_def)

lemma mask_step_actions:
  "legal_action_mask (step s CALL) = [False, False, False, False]"
  "legal_action_mask (step s BET) = [True, False, True, False]"
  "legal_action_mask (step s FOLD) = [False, False, False, False]"
  "legal_action_mask (step s CHECK) = [False, True, False, True]"
  by (simp_all add: mask_step lax_switch_def action_defs)

lemma terminated_step:
  "terminated (step s a) =
     (a = FOLD \<or> (last_action s = BET \<and> a = CALL) \<or> (last_action s = CHECK \<and> a = CHECK))"
  by (simp add: step_def Let_def action_defs)

lemma rewards_step:
  "rewards (step s a) =
     (if last_action s = CHECK \<and> a = CHECK then get_unit_reward s
      else if last_action s = BET \<and> a = CALL then scale2 (get_unit_reward s) 2
      else if a = FOLD then set2 (- 1, - 1) (1 - current_player s) 1 else (0, 0))"
  by (simp add: step_def Let_def action_defs)

lemma pot_step:
  "pot (step s a) =
     (if a = BET \<or> a = CALL then add2 (pot s) (current_player s) 1 else pot s)"
  by (simp add: step_def Let_def split_def)

lemma step_fields [simp]:
  "cards (step s a) = cards s"
  "last_action (step s a) = a"
  "current_player (step s a) = 1 - current_player s"
  by (simp_all add: step_def Let_def split_def)

lemma unit_reward_0:
  "current_player s = 0 \<Longrightarrow>
   get_unit_reward s = (if sint (snd (cards s)) < sint (fst (cards s)) then (1, - 1) else (- 1, 1))"
  by (simp add: get_unit_reward_def)

lemma unit_reward_1:
  "current_player s = 1 \<Longrightarrow>
   get_unit_reward s = (if sint (fst (cards s)) < sint (snd (cards s)) then (- 1, 1) else (1, - 1))"
  by (simp add: get_unit_reward_def)

lemma rewards_step_range:
  assumes "seat (current_player s)"
  shows "rewards (step s a) \<in> {(0, 0), (1, - 1), (- 1, 1), (2, - 2), (- 2, 2)}"
proof -
  from assms have "current_player s = 0 \<or> current_player s = 1" by (simp add: seat_def)
  then show ?thesis
  proof
    assume "current_player s = 0"
    then show ?thesis by (simp add: rewards_step unit_reward_0 scale2_def)
  next
    assume "current_player s = 1"
    then show ?thesis by (simp add: rewards_step unit_reward_1 scale2_def)
  qed
qed

lemma rewards_step_running: "\<not> terminated (step s a) \<Longrightarrow> rewards (step s a) = (0, 0)"
  by (auto simp add: terminated_step rewards_step)

subsection \<open>The fields of an initial state\<close>

lemma init_fields:
  "terminated (init split bernoulli choice rng) = False"
  "pot (init split bernoulli choice rng) = (0, 0)"
  "last_action (init split bernoulli choice rng) = - 1"
  "legal_action_mask (init split bernoulli choice rng) = [False, True, False, True]"
  "cards (init split bernoulli choice rng) = choice (snd (split rng)) deals"
  "current_player (init split bernoulli choice rng) = (if bernoulli (fst (split rng)) then 1 else 0)"
  "rewards (init split bernoulli choice rng) = (0, 0)"
  by (simp_all add: init_def default_State_def Let_def split_def)

lemma deals_distinct:
  "c \<in> set deals \<Longrightarrow> fst c \<noteq> snd c \<and> fst c \<in> {0, 1, 2} \<and> snd c \<in> {0, 1, 2}"
  by (auto simp add: deals_def)

lemma deals_strict:
  "c \<in> set deals \<Longrightarrow> sint (fst c) \<noteq> sint (snd c)"
  by (auto simp add: deals_def)

subsection \<open>The concrete hand, evaluated\<close>

lemma deal_QK_fields:
  "current_player deal_QK = 0" "cards deal_QK = (1, 2)" "pot deal_QK = (0, 0)"
  "last_action deal_QK = - 1" "legal_action_mask deal_QK = [False, True, False, True]"
  "terminated deal_QK = False"
  by (simp_all add: example_defs)

lemma facing_bet_fields:
  "current_player facing_bet = 1" "cards facing_bet = (1, 2)" "pot facing_bet = (1, 0)"
  "last_action facing_bet = BET" "legal_action_mask facing_bet = [True, False, True, False]"
  "terminated facing_bet = False"
  by (simp_all add: facing_bet_def mask_step_actions pot_step terminated_step deal_QK_fields)

lemma after_check_fields:
  "current_player after_check = 1" "cards after_check = (1, 2)" "pot after_check = (0, 0)"
  "last_action after_check = CHECK" "legal_action_mask after_check = [False, True, False, True]"
  "terminated after_check = False"
  by (simp_all add: after_check_def mask_step_actions pot_step terminated_step deal_QK_fields)

section \<open>The observation as an encoding\<close>

lemma observe_encode:
  "observe s p = encode (get2 (cards s) p) (get2 (pot s) p) (get2 (pot s) (1 - p))"
  by (simp add: observe_def encode_def Let_def)

lemma encode_one_hot:
  assumes "c \<in> {0, 1, 2}" and "q \<in> {0, 1}" and "r \<in> {0, 1}"
  shows "length (encode c q r) = 7 \<and>
         (\<forall>i < 7. encode c q r ! i \<longleftrightarrow> (i = unat c \<or> i = 3 + unat q \<or> i = 5 + unat r)) \<and>
         length (filter (\<lambda>b. b) (encode c q r)) = 3"
proof -
  have one: "length (encode c q r) = 7 \<and>
         (\<forall>i < 7. encode c q r ! i \<longleftrightarrow> (i = unat c \<or> i = 3 + unat q \<or> i = 5 + unat r)) \<and>
         length (filter (\<lambda>b. b) (encode c q r)) = 3"
    if "c = 0 \<or> c = 1 \<or> c = 2" "q = 0 \<or> q = 1" "r = 0 \<or> r = 1"
    using that unfolding lt7
    by (elim disjE) (simp_all add: encode_def zeros7 at_set_def norm_index_def)
  from assms show ?thesis by (intro one) simp_all
qed

section \<open>Legal play keeps the phase invariant\<close>

lemma legal_open:
  "legal s a \<Longrightarrow> legal_action_mask s = [False, True, False, True] \<Longrightarrow> a = BET \<or> a = CHECK"
  by (auto simp add: legal_def action_defs)

lemma legal_facing_bet:
  "legal s a \<Longrightarrow> legal_action_mask s = [True, False, True, False] \<Longrightarrow> a = CALL \<or> a = FOLD"
  by (auto simp add: legal_def action_defs)

lemma legal_none:
  "legal s a \<Longrightarrow> legal_action_mask s = [False, False, False, False] \<Longrightarrow> False"
  by (auto simp add: legal_def action_defs)

lemma phase_inv_init:
  "choice (snd (split rng)) deals \<in> set deals \<Longrightarrow> phase_inv (init split bernoulli choice rng)"
  by (simp add: phase_inv_def init_fields seat_def)

lemma phase_inv_step:
  assumes "phase_inv s" and "legal s a"
  shows "phase_inv (step s a)"
proof -
  from assms(1) have p: "current_player s = 0 \<or> current_player s = 1"
    and c: "cards s \<in> set deals"
    by (simp_all add: phase_inv_def seat_def)
  from assms(1) consider
      (opened) "legal_action_mask s = [False, True, False, True]" "pot s = (0, 0)"
    | (bet) "legal_action_mask s = [True, False, True, False]"
        "get2 (pot s) (current_player s) = 0" "get2 (pot s) (1 - current_player s) = 1"
    | (over) "legal_action_mask s = [False, False, False, False]"
    unfolding phase_inv_def by blast
  then show ?thesis
  proof cases
    case opened
    from assms(2) opened(1) have "a = BET \<or> a = CHECK" by (rule legal_open)
    then show ?thesis
    proof
      assume a: "a = BET"
      from p show ?thesis
      proof
        assume "current_player s = 0"
        with a c opened show ?thesis
          by (simp add: phase_inv_def seat_def mask_step_actions pot_step)
      next
        assume "current_player s = 1"
        with a c opened show ?thesis
          by (simp add: phase_inv_def seat_def mask_step_actions pot_step)
      qed
    next
      assume a: "a = CHECK"
      from p show ?thesis
      proof
        assume "current_player s = 0"
        with a c opened show ?thesis
          by (simp add: phase_inv_def seat_def mask_step_actions pot_step)
      next
        assume "current_player s = 1"
        with a c opened show ?thesis
          by (simp add: phase_inv_def seat_def mask_step_actions pot_step)
      qed
    qed
  next
    case bet
    from assms(2) bet(1) have "a = CALL \<or> a = FOLD" by (rule legal_facing_bet)
    then show ?thesis
    proof
      assume a: "a = CALL"
      from p show ?thesis
      proof
        assume "current_player s = 0"
        with a c bet show ?thesis
          by (simp add: phase_inv_def seat_def mask_step_actions pot_step)
      next
        assume "current_player s = 1"
        with a c bet show ?thesis
          by (simp add: phase_inv_def seat_def mask_step_actions pot_step)
      qed
    next
      assume a: "a = FOLD"
      from p show ?thesis
      proof
        assume "current_player s = 0"
        with a c bet show ?thesis
          by (simp add: phase_inv_def seat_def mask_step_actions pot_step)
      next
        assume "current_player s = 1"
        with a c bet show ?thesis
          by (simp add: phase_inv_def seat_def mask_step_actions pot_step)
      qed
    qed
  next
    case over
    with assms(2) show ?thesis by (blast dest: legal_none)
  qed
qed

lemma reachable_phase_inv: "reachable s \<Longrightarrow> phase_inv s"
  by (induction rule: reachable.induct) (simp_all add: phase_inv_init phase_inv_step)

lemma reachable_seat: "reachable s \<Longrightarrow> seat (current_player s)"
  by (drule reachable_phase_inv) (simp add: phase_inv_def)

lemma reachable_call_answers_bet:
  "reachable s \<Longrightarrow> legal s CALL \<Longrightarrow> last_action s = BET"
  by (drule reachable_phase_inv) (auto simp add: phase_inv_def legal_def action_defs)

lemma reachable_deal_QK: "reachable deal_QK"
  unfolding deal_QK_def
  by (rule reach_init) (simp add: fixed_choice_def fixed_split_def deals_def)

lemma reachable_facing_bet: "reachable facing_bet"
  unfolding facing_bet_def
  by (rule reach_step [OF reachable_deal_QK]) (simp add: legal_def deal_QK_fields BET_def)

section \<open>Payoffs\<close>

text \<open>
  Claim C1. In a state whose \<open>current_player\<close> is a seat: if \<open>last_action\<close> is Bet, then
  \<open>step\<close> with Call returns a terminated state whose rewards are \<open>+2\<close> for the player
  who holds the strictly higher card and \<open>-2\<close> for the other; if \<open>last_action\<close> is Check,
  then \<open>step\<close> with Check returns a terminated state whose rewards are \<open>+1\<close> for the
  player who holds the strictly higher card and \<open>-1\<close> for the other. The first component
  of \<open>cards\<close> and of \<open>rewards\<close> belongs to player 0, the second to player 1.
\<close>

theorem showdown_payoff:
  assumes "seat (current_player s)"
  shows "(last_action s = BET \<longrightarrow>
            terminated (step s CALL) \<and>
            (sint (snd (cards s)) < sint (fst (cards s)) \<longrightarrow> rewards (step s CALL) = (2, - 2)) \<and>
            (sint (fst (cards s)) < sint (snd (cards s)) \<longrightarrow> rewards (step s CALL) = (- 2, 2))) \<and>
         (last_action s = CHECK \<longrightarrow>
            terminated (step s CHECK) \<and>
            (sint (snd (cards s)) < sint (fst (cards s)) \<longrightarrow> rewards (step s CHECK) = (1, - 1)) \<and>
            (sint (fst (cards s)) < sint (snd (cards s)) \<longrightarrow> rewards (step s CHECK) = (- 1, 1)))"
proof -
  from assms have "current_player s = 0 \<or> current_player s = 1" by (simp add: seat_def)
  then show ?thesis
  proof
    assume "current_player s = 0"
    then show ?thesis
      by (simp add: terminated_step rewards_step unit_reward_0 scale2_def)
  next
    assume "current_player s = 1"
    then show ?thesis
      by (simp add: terminated_step rewards_step unit_reward_1 scale2_def)
  qed
qed

theorem showdown_payoff_witness:
  "seat (current_player facing_bet) \<and> last_action facing_bet = BET \<and>
   sint (fst (cards facing_bet)) < sint (snd (cards facing_bet)) \<and>
   terminated (step facing_bet CALL) \<and> rewards (step facing_bet CALL) = (- 2, 2) \<and>
   seat (current_player after_check) \<and> last_action after_check = CHECK \<and>
   sint (fst (cards after_check)) < sint (snd (cards after_check)) \<and>
   terminated (step after_check CHECK) \<and> rewards (step after_check CHECK) = (- 1, 1)"
proof -
  have b: "seat (current_player facing_bet)" and c: "seat (current_player after_check)"
    by (simp_all add: seat_def facing_bet_fields after_check_fields)
  from showdown_payoff [OF b] showdown_payoff [OF c] b c show ?thesis
    by (simp add: facing_bet_fields after_check_fields)
qed

text \<open>
  Claim C2. In a state whose \<open>current_player\<close> is a seat, \<open>step\<close> with Fold returns a
  terminated state in which the acting player's reward is \<open>-1\<close> and the opponent's is
  \<open>+1\<close>; replacing the cards of the state by any other pair changes neither.
\<close>

theorem fold_payoff:
  assumes "seat (current_player s)"
  shows "terminated (step s FOLD) \<and>
         get2 (rewards (step s FOLD)) (current_player s) = - 1 \<and>
         get2 (rewards (step s FOLD)) (1 - current_player s) = 1 \<and>
         terminated (step (s\<lparr>cards := c\<rparr>) FOLD) \<and>
         rewards (step (s\<lparr>cards := c\<rparr>) FOLD) = rewards (step s FOLD)"
proof -
  from assms have "current_player s = 0 \<or> current_player s = 1" by (simp add: seat_def)
  then show ?thesis
  proof
    assume "current_player s = 0"
    then show ?thesis by (simp add: terminated_step rewards_step)
  next
    assume "current_player s = 1"
    then show ?thesis by (simp add: terminated_step rewards_step)
  qed
qed

theorem fold_payoff_witness:
  "seat (current_player facing_bet) \<and> terminated (step facing_bet FOLD) \<and>
   rewards (step facing_bet FOLD) = (1, - 1) \<and>
   rewards (step (facing_bet\<lparr>cards := (2, 0)\<rparr>) FOLD) = (1, - 1)"
proof -
  have b: "seat (current_player facing_bet)"
    by (simp add: seat_def facing_bet_fields)
  from fold_payoff [OF b, of "(2, 0)"] b show ?thesis
    by (simp add: facing_bet_fields prod_eq_iff)
qed

text \<open>
  Claim C3. For every state whose \<open>current_player\<close> is a seat and every action (any
  8-bit value), the two rewards of the state that \<open>step\<close> returns add up to zero. Terminal
  states are among them.
\<close>

theorem step_zero_sum:
  assumes "seat (current_player s)"
  shows "fst (rewards (step s a)) + snd (rewards (step s a)) = 0"
  using rewards_step_range [OF assms, of a] by auto

theorem step_zero_sum_witness:
  "seat (current_player facing_bet) \<and> terminated (step facing_bet CALL) \<and>
   fst (rewards (step facing_bet CALL)) + snd (rewards (step facing_bet CALL)) = 0"
proof -
  have b: "seat (current_player facing_bet)"
    by (simp add: seat_def facing_bet_fields)
  from step_zero_sum [OF b, of CALL] b show ?thesis
    by (simp add: terminated_step facing_bet_fields)
qed

text \<open>
  Claim C4. For every state whose \<open>current_player\<close> is a seat and every action: if the
  state that \<open>step\<close> returns is not terminated, its rewards are \<open>(0, 0)\<close>; if its rewards
  are not \<open>(0, 0)\<close>, they are \<open>(m, -m)\<close> or \<open>(-m, m)\<close> with \<open>m\<close> equal to 1 or 2.
\<close>

theorem rewards_shape:
  assumes "seat (current_player s)"
  shows "(\<not> terminated (step s a) \<longrightarrow> rewards (step s a) = (0, 0)) \<and>
         (rewards (step s a) \<noteq> (0, 0) \<longrightarrow>
            rewards (step s a) \<in> {(1, - 1), (- 1, 1), (2, - 2), (- 2, 2)})"
  using rewards_step_range [OF assms, of a] rewards_step_running [of s a] by blast

theorem rewards_shape_witness:
  "seat (current_player deal_QK) \<and>
   \<not> terminated (step deal_QK BET) \<and> rewards (step deal_QK BET) = (0, 0) \<and>
   seat (current_player facing_bet) \<and>
   rewards (step facing_bet CALL) \<noteq> (0, 0) \<and>
   rewards (step facing_bet CALL) \<in> {(1, - 1), (- 1, 1), (2, - 2), (- 2, 2)}"
proof -
  have a: "seat (current_player deal_QK)" and b: "seat (current_player facing_bet)"
    by (simp_all add: seat_def deal_QK_fields facing_bet_fields)
  have t: "\<not> terminated (step deal_QK BET)"
    by (simp add: terminated_step deal_QK_fields)
  have r: "rewards (step facing_bet CALL) \<noteq> (0, 0)"
    by (simp add: rewards_step unit_reward_1 scale2_def facing_bet_fields)
  from rewards_shape [OF a, of BET] rewards_shape [OF b, of CALL] a b t r show ?thesis
    by blast
qed

section \<open>The legal-action mask\<close>

text \<open>
  Claim C5, as stated, fails: it concludes from the mask table that every non-terminal
  result has a legal action, but a Call that does not answer a Bet returns a state that is
  not terminated and whose mask is empty. The engine does not check the action against the
  mask, so it accepts this Call from the initial state.
\<close>

theorem call_unanswered_dead_end:
  "last_action deal_QK = - 1 \<and> \<not> terminated (step deal_QK CALL) \<and>
   legal_action_mask (step deal_QK CALL) = [False, False, False, False] \<and>
   True \<notin> set (legal_action_mask (step deal_QK CALL))"
  by (simp add: terminated_step mask_step_actions deal_QK_fields)

text \<open>
  Claim C5, amended. For every state, the mask of the state that \<open>step\<close> returns depends
  only on the action: after Call it is all-false, after Bet exactly Call and Fold are
  legal, after Fold it is all-false, after Check exactly Bet and Check are legal. For each
  of the four actions, provided a Call is only taken when \<open>last_action\<close> is Bet, a
  non-terminal result has at least one legal action. Call and Fold are legal in a result
  only when its \<open>last_action\<close> is Bet.
\<close>

theorem mask_after_step:
  "legal_action_mask (step s CALL) = [False, False, False, False] \<and>
   legal_action_mask (step s BET) = [True, False, True, False] \<and>
   legal_action_mask (step s FOLD) = [False, False, False, False] \<and>
   legal_action_mask (step s CHECK) = [False, True, False, True] \<and>
   legal_action_mask (step s a) = legal_action_mask (step s' a) \<and>
   (a \<in> {CALL, BET, FOLD, CHECK} \<longrightarrow> (a = CALL \<longrightarrow> last_action s = BET) \<longrightarrow>
      \<not> terminated (step s a) \<longrightarrow> True \<in> set (legal_action_mask (step s a))) \<and>
   (legal (step s a) CALL \<or> legal (step s a) FOLD \<longrightarrow> last_action (step s a) = BET)"
proof -
  have table: "legal_action_mask (step s CALL) = [False, False, False, False]"
    "legal_action_mask (step s BET) = [True, False, True, False]"
    "legal_action_mask (step s FOLD) = [False, False, False, False]"
    "legal_action_mask (step s CHECK) = [False, True, False, True]"
    by (rule mask_step_actions)+
  have same: "legal_action_mask (step s a) = legal_action_mask (step s' a)"
    by (simp add: mask_step)
  have total: "True \<in> set (legal_action_mask (step s a))"
    if "a \<in> {CALL, BET, FOLD, CHECK}" "a = CALL \<longrightarrow> last_action s = BET"
      "\<not> terminated (step s a)"
  proof -
    from that have "a = BET \<or> a = CHECK"
      by (auto simp add: terminated_step)
    then show ?thesis
    proof
      assume "a = BET"
      then show ?thesis by (simp add: mask_step_actions)
    next
      assume "a = CHECK"
      then show ?thesis by (simp add: mask_step_actions)
    qed
  qed
  have only: "last_action (step s a) = BET"
    if "legal (step s a) CALL \<or> legal (step s a) FOLD"
  proof -
    let ?m = "lax_switch a [[False, False, False, False], [True, False, True, False],
                [False, False, False, False], [False, True, False, True]]"
    from that have m: "?m ! 0 \<or> ?m ! 2"
      by (auto simp add: legal_def mask_step action_defs)
    have "sint a = 1"
    proof (rule ccontr)
      assume "sint a \<noteq> 1"
      then consider "sint a \<le> 0" | "sint a = 2" | "sint a \<ge> 3" by linarith
      then show False
        using m by cases (auto simp add: lax_switch_def max_def min_def nat_eq_iff)
    qed
    then show ?thesis by (simp add: sint_eq_1 BET_def)
  qed
  from table same total only show ?thesis by blast
qed

theorem mask_after_step_witness:
  "BET \<in> {CALL, BET, FOLD, CHECK} \<and> BET \<noteq> CALL \<and> \<not> terminated (step deal_QK BET) \<and>
   True \<in> set (legal_action_mask (step deal_QK BET)) \<and>
   legal (step deal_QK BET) CALL \<and> last_action (step deal_QK BET) = BET"
proof -
  have t: "\<not> terminated (step deal_QK BET)"
    by (simp add: terminated_step deal_QK_fields)
  have l: "legal (step deal_QK BET) CALL"
    by (simp add: legal_def mask_step_actions) (simp add: CALL_def)
  from mask_after_step [of deal_QK BET] t l show ?thesis
    by simp
qed

section \<open>The initial state\<close>

text \<open>
  Claim C6. Whatever the key, and whatever \<open>split\<close> and \<open>bernoulli\<close> compute, as long as
  \<open>choice\<close> returns one of the rows it is given: \<open>init\<close> returns a state that is not
  terminated, with pot \<open>(0, 0)\<close>, \<open>last_action\<close> equal to the sentinel \<open>-1\<close>, a mask in
  which exactly Bet and Check are legal, and two cards that are distinct ranks among
  0, 1 and 2.
\<close>

theorem init_state:
  assumes "\<forall>k. choice k deals \<in> set deals"
  shows "\<not> terminated (init split bernoulli choice rng) \<and>
         pot (init split bernoulli choice rng) = (0, 0) \<and>
         last_action (init split bernoulli choice rng) = - 1 \<and>
         legal_action_mask (init split bernoulli choice rng) = [False, True, False, True] \<and>
         legal (init split bernoulli choice rng) BET \<and>
         legal (init split bernoulli choice rng) CHECK \<and>
         \<not> legal (init split bernoulli choice rng) CALL \<and>
         \<not> legal (init split bernoulli choice rng) FOLD \<and>
         fst (cards (init split bernoulli choice rng)) \<in> {0, 1, 2} \<and>
         snd (cards (init split bernoulli choice rng)) \<in> {0, 1, 2} \<and>
         fst (cards (init split bernoulli choice rng)) \<noteq> snd (cards (init split bernoulli choice rng))"
proof -
  from assms have "choice (snd (split rng)) deals \<in> set deals" ..
  then show ?thesis
    using deals_distinct [of "choice (snd (split rng)) deals"]
    by (simp add: init_fields legal_def action_defs)
qed

theorem init_state_witness:
  "(\<forall>k. fixed_choice k deals \<in> set deals) \<and>
   \<not> terminated deal_QK \<and> pot deal_QK = (0, 0) \<and> last_action deal_QK = - 1 \<and>
   legal_action_mask deal_QK = [False, True, False, True] \<and>
   fst (cards deal_QK) \<noteq> snd (cards deal_QK)"
proof -
  have h: "\<forall>k. fixed_choice k deals \<in> set deals"
    by (simp add: fixed_choice_def deals_def)
  from init_state [where choice = fixed_choice and split = fixed_split
      and bernoulli = fixed_coin and rng = "(0, 0)", OF h] h
  show ?thesis
    by (simp add: deal_QK_def)
qed

section \<open>The observation\<close>

text \<open>
  Claim C7. For every state whose cards are among 0, 1, 2 and whose pot entries are 0 or
  1, and every seat \<open>p\<close>: \<open>observe\<close> returns a vector of 7 booleans of which exactly three
  are true, at the positions \<open>cards[p]\<close> (within 0..2), \<open>3 + pot[p]\<close> (within 3..4) and
  \<open>5 + pot[1 - p]\<close> (within 5..6).
\<close>

theorem observe_one_hot:
  assumes "valid_state s" and "seat p"
  shows "length (observe s p) = 7 \<and>
         (\<forall>i < 7. observe s p ! i \<longleftrightarrow>
            (i = unat (get2 (cards s) p) \<or> i = 3 + unat (get2 (pot s) p) \<or>
             i = 5 + unat (get2 (pot s) (1 - p)))) \<and>
         unat (get2 (cards s) p) \<le> 2 \<and> unat (get2 (pot s) p) \<le> 1 \<and>
         unat (get2 (pot s) (1 - p)) \<le> 1 \<and>
         length (filter (\<lambda>b. b) (observe s p)) = 3"
proof -
  from assms have c: "get2 (cards s) p \<in> {0, 1, 2}"
    and q: "get2 (pot s) p \<in> {0, 1}" and r: "get2 (pot s) (1 - p) \<in> {0, 1}"
    by (auto simp add: valid_state_def seat_def)
  from c have "unat (get2 (cards s) p) \<le> 2" by auto
  moreover from q have "unat (get2 (pot s) p) \<le> 1" by auto
  moreover from r have "unat (get2 (pot s) (1 - p)) \<le> 1" by auto
  ultimately show ?thesis
    using encode_one_hot [OF c q r] by (simp add: observe_encode)
qed

theorem observe_one_hot_witness:
  "valid_state facing_bet \<and> seat 1 \<and> length (observe facing_bet 1) = 7 \<and>
   observe facing_bet 1 ! 2 \<and> observe facing_bet 1 ! 3 \<and> observe facing_bet 1 ! 6 \<and>
   \<not> observe facing_bet 1 ! 0 \<and> \<not> observe facing_bet 1 ! 1 \<and>
   \<not> observe facing_bet 1 ! 4 \<and> \<not> observe facing_bet 1 ! 5 \<and>
   length (filter (\<lambda>b. b) (observe facing_bet 1)) = 3"
proof -
  have v: "valid_state facing_bet" and p: "seat 1"
    by (simp_all add: valid_state_def seat_def facing_bet_fields)
  from observe_one_hot [OF v p] v p show ?thesis
    by (simp add: facing_bet_fields lt7)
qed

text \<open>
  Claim C8. For every seat \<open>p\<close> and every state, overwriting the opponent's card
  \<open>cards[1 - p]\<close> with any value leaves \<open>observe\<close> for \<open>p\<close> unchanged: two states
  that differ only in the opponent's card have the same observation. Valid states are a
  special case.
\<close>

theorem observe_hides_opponent_card:
  assumes "seat p"
  shows "observe (s\<lparr>cards := set2 (cards s) (1 - p) c\<rparr>) p = observe s p"
proof -
  from assms have "p = 0 \<or> p = 1" by (simp add: seat_def)
  then show ?thesis
  proof
    assume "p = 0"
    then show ?thesis by (simp add: observe_def)
  next
    assume "p = 1"
    then show ?thesis by (simp add: observe_def)
  qed
qed

theorem observe_hides_opponent_card_witness:
  "seat 0 \<and> cards (deal_QK\<lparr>cards := set2 (cards deal_QK) (1 - 0) 0\<rparr>) = (1, 0) \<and>
   cards deal_QK = (1, 2) \<and>
   observe (deal_QK\<lparr>cards := set2 (cards deal_QK) (1 - 0) 0\<rparr>) 0 = observe deal_QK 0"
proof -
  have p: "seat 0" by (simp add: seat_def)
  from observe_hides_opponent_card [OF p, of deal_QK 0] p show ?thesis
    by (simp add: deal_QK_fields)
qed

section \<open>Legal play\<close>

text \<open>
  Claim C9. In every state reachable from an initial state by steps whose action the
  current mask permits, each pot entry is 0 or 1. Hence, for every seat \<open>p\<close>, the three
  indices that \<open>observe\<close> writes are the card of \<open>p\<close> within 0..2, \<open>3 + pot[p]\<close> within
  3..4 and \<open>5 + pot[1 - p]\<close> within 5..6: pairwise distinct, and inside the vector of
  length 7.
\<close>

theorem reachable_pot_bounded:
  assumes "reachable s"
  shows "fst (pot s) \<in> {0, 1} \<and> snd (pot s) \<in> {0, 1} \<and>
         (\<forall>p. seat p \<longrightarrow>
            sint (get2 (cards s) p) \<in> {0..2} \<and>
            sint (3 + get2 (pot s) p) \<in> {3..4} \<and>
            sint (5 + get2 (pot s) (1 - p)) \<in> {5..6} \<and>
            distinct [get2 (cards s) p, 3 + get2 (pot s) p, 5 + get2 (pot s) (1 - p)] \<and>
            length (observe s p) = 7)"
proof -
  from assms have inv: "phase_inv s" by (rule reachable_phase_inv)
  then have c: "cards s \<in> set deals" by (simp add: phase_inv_def)
  from inv have pots: "fst (pot s) \<in> {0, 1} \<and> snd (pot s) \<in> {0, 1}"
    unfolding phase_inv_def seat_def by (elim conjE disjE) auto
  have "sint (get2 (cards s) p) \<in> {0..2} \<and>
        sint (3 + get2 (pot s) p) \<in> {3..4} \<and>
        sint (5 + get2 (pot s) (1 - p)) \<in> {5..6} \<and>
        distinct [get2 (cards s) p, 3 + get2 (pot s) p, 5 + get2 (pot s) (1 - p)] \<and>
        length (observe s p) = 7" if "seat p" for p
  proof -
    from c that have cp: "get2 (cards s) p \<in> {0, 1, 2}"
      using deals_distinct [of "cards s"] by (auto simp add: seat_def)
    from pots that have q: "get2 (pot s) p \<in> {0, 1}" and r: "get2 (pot s) (1 - p) \<in> {0, 1}"
      by (auto simp add: seat_def)
    from encode_one_hot [OF cp q r] have "length (observe s p) = 7"
      by (simp add: observe_encode)
    with cp q r show ?thesis by auto
  qed
  with pots show ?thesis by blast
qed

theorem reachable_pot_bounded_witness:
  "reachable facing_bet \<and> seat 0 \<and> pot facing_bet = (1, 0) \<and>
   sint (get2 (cards facing_bet) 0) = 1 \<and>
   sint (3 + get2 (pot facing_bet) 0) = 4 \<and>
   sint (5 + get2 (pot facing_bet) (1 - 0)) = 5 \<and>
   distinct [get2 (cards facing_bet) 0, 3 + get2 (pot facing_bet) 0,
     5 + get2 (pot facing_bet) (1 - 0)] \<and>
   length (observe facing_bet 0) = 7"
proof -
  have p: "seat 0" by (simp add: seat_def)
  from reachable_pot_bounded [OF reachable_facing_bet] p
  have "distinct [get2 (cards facing_bet) 0, 3 + get2 (pot facing_bet) 0,
          5 + get2 (pot facing_bet) (1 - 0)] \<and> length (observe facing_bet 0) = 7"
    by blast
  with reachable_facing_bet p show ?thesis
    by (simp add: facing_bet_fields)
qed

text \<open>
  Claim C10. For every state and every action, \<open>step\<close> returns its argument with only
  \<open>current_player\<close>, \<open>last_action\<close>, \<open>legal_action_mask\<close>, \<open>terminated\<close>, \<open>rewards\<close>
  and \<open>pot\<close> replaced; in particular the cards are those of the argument. Hence in every
  reachable state the cards are one of the six deals, they are distinct, and the two
  cards a showdown compares are not equal.
\<close>

theorem step_keeps_cards:
  "step s a =
     s\<lparr>current_player := 1 - current_player s,
       last_action := a,
       legal_action_mask := legal_action_mask (step s a),
       terminated := terminated (step s a),
       rewards := rewards (step s a),
       pot := pot (step s a)\<rparr> \<and>
   cards (step s a) = cards s \<and>
   (reachable s \<longrightarrow>
      cards s \<in> set deals \<and> fst (cards s) \<noteq> snd (cards s) \<and>
      sint (get2 (cards s) (current_player s)) \<noteq> sint (get2 (cards s) (1 - current_player s)))"
proof -
  have frame: "step s a =
     s\<lparr>current_player := 1 - current_player s,
       last_action := a,
       legal_action_mask := legal_action_mask (step s a),
       terminated := terminated (step s a),
       rewards := rewards (step s a),
       pot := pot (step s a)\<rparr>"
    by (simp add: step_def Let_def split_def)
  have tie: "cards s \<in> set deals \<and> fst (cards s) \<noteq> snd (cards s) \<and>
      sint (get2 (cards s) (current_player s)) \<noteq> sint (get2 (cards s) (1 - current_player s))"
    if "reachable s"
  proof -
    from that have inv: "phase_inv s" by (rule reachable_phase_inv)
    then have c: "cards s \<in> set deals" and p: "seat (current_player s)"
      by (simp_all add: phase_inv_def)
    from c have "fst (cards s) \<noteq> snd (cards s)" by (simp add: deals_distinct)
    moreover from c have "sint (fst (cards s)) \<noteq> sint (snd (cards s))"
      by (rule deals_strict)
    ultimately show ?thesis using c p by (auto simp add: seat_def)
  qed
  from frame tie show ?thesis by simp
qed

theorem step_keeps_cards_witness:
  "reachable facing_bet \<and> cards (step facing_bet CALL) = cards facing_bet \<and>
   cards facing_bet = (1, 2) \<and> fst (cards facing_bet) \<noteq> snd (cards facing_bet) \<and>
   truncated (step facing_bet CALL) = truncated facing_bet \<and>
   step_count (step facing_bet CALL) = step_count facing_bet"
proof -
  from step_keeps_cards [of facing_bet CALL] reachable_facing_bet
  have "cards (step facing_bet CALL) = cards facing_bet \<and>
        fst (cards facing_bet) \<noteq> snd (cards facing_bet)"
    by blast
  moreover have "truncated (step facing_bet CALL) = truncated facing_bet \<and>
        step_count (step facing_bet CALL) = step_count facing_bet"
    by (simp add: step_def Let_def split_def)
  ultimately show ?thesis
    using reachable_facing_bet by (simp add: facing_bet_fields)
qed

end
